theory Spec2Isabelle
  imports Main "HOL-Library.Word" "HOL-Library.Multiset"
begin

unbundle bit_operations_syntax

section \<open>The bounded MPMC queue of \<^verbatim>\<open>include/mpmc/mpmcqueue.hpp\<close>\<close>

text \<open>
  The header implements a bounded multi-producer/multi-consumer queue: a ring of slots,
  each with a \<^verbatim>\<open>turn\<close> counter and raw storage for one element, and two ticket
  counters \<^verbatim>\<open>head_\<close> and \<^verbatim>\<open>tail_\<close>. This theory embeds the header
  function by function. \<^verbatim>\<open>size_t\<close> is the 64-bit unsigned word (all of its
  arithmetic wraps), \<^verbatim>\<open>ptrdiff_t\<close> is read off a word with \<open>sint\<close>.
\<close>

type_synonym size_t = "64 word"

subsection \<open>Slots\<close>

text \<open>
  \<^verbatim>\<open>struct slot\<close>: the atomic \<^verbatim>\<open>turn\<close> and the aligned raw storage.
  The storage either holds a live element (\<open>Some v\<close>) or no object (\<open>None\<close>).
\<close>

record 'a slot =
  turn :: size_t
  storage :: "'a option"

text \<open>\<^verbatim>\<open>slot<T>()\<close>: the default member initialiser \<^verbatim>\<open>turn = {0}\<close>; the storage is raw.\<close>

definition slot_init :: "'a slot" where
  [code_unfold]: "slot_init = \<lparr>turn = 0, storage = None\<rparr>"

text \<open>\<^verbatim>\<open>construct\<close>: placement-new of the element into the storage.\<close>

definition construct :: "'a \<Rightarrow> 'a slot \<Rightarrow> 'a slot" where
  "construct v s = s\<lparr>storage := Some v\<rparr>"

text \<open>\<^verbatim>\<open>destroy\<close>: the destructor call on the storage.\<close>

definition destroy :: "'a slot \<Rightarrow> 'a slot" where
  "destroy s = s\<lparr>storage := None\<rparr>"

text \<open>\<^verbatim>\<open>move\<close>: an rvalue reference to the element in the storage.\<close>

definition move :: "'a slot \<Rightarrow> 'a" where
  "move s = the (storage s)"

subsection \<open>The queue object\<close>

text \<open>
  \<^verbatim>\<open>class queue\<close>: the members \<^verbatim>\<open>capacity_\<close>, \<^verbatim>\<open>slots_\<close>,
  \<^verbatim>\<open>head_\<close> and \<^verbatim>\<open>tail_\<close> (a name cannot end in an underscore here: the
  fields are \<open>capacity\<close>, \<open>slots\<close>, \<open>head\<close> and \<open>tail\<close>). The pointer \<^verbatim>\<open>slots_\<close> is modelled by
  the address \<open>slots_ptr\<close> and the list \<open>slots\<close> of the slots constructed behind it.
  Two counters instrument the element type the way \<^verbatim>\<open>test_type\<close> of the test
  program does: \<open>constructed\<close> counts the element constructor calls made in
  \<^verbatim>\<open>slot::construct\<close>, \<open>destroyed\<close> the destructor calls made in
  \<^verbatim>\<open>slot::destroy\<close>.
\<close>

record 'a queue =
  capacity :: size_t
  slots_ptr :: size_t
  slots :: "'a slot list"
  head :: size_t
  tail :: size_t
  constructed :: nat
  destroyed :: nat

text \<open>\<^verbatim>\<open>idx_(i) = i % capacity_\<close> and \<^verbatim>\<open>turn_(i) = i / capacity_\<close>,
  here \<open>idx\<close> and \<open>turn_of\<close>.\<close>

definition idx :: "'a queue \<Rightarrow> size_t \<Rightarrow> size_t" where
  "idx q i = i mod capacity q"

definition turn_of :: "'a queue \<Rightarrow> size_t \<Rightarrow> size_t" where
  "turn_of q i = i div capacity q"

text \<open>The slot \<^verbatim>\<open>slots_[idx_(i)]\<close> of a ticket, as a list position.\<close>

definition slot_of :: "'a queue \<Rightarrow> size_t \<Rightarrow> nat" where
  "slot_of q i = unat (idx q i)"

text \<open>
  The three writes the operations make to a slot: \<^verbatim>\<open>slot.construct(v)\<close>,
  \<^verbatim>\<open>slot.destroy()\<close> and \<^verbatim>\<open>slot.turn.store(t)\<close>.
\<close>

definition construct_at :: "nat \<Rightarrow> 'a \<Rightarrow> 'a queue \<Rightarrow> 'a queue" where
  "construct_at i v q =
     q\<lparr>slots := (slots q)[i := construct v (slots q ! i)],
       constructed := Suc (constructed q)\<rparr>"

definition destroy_at :: "nat \<Rightarrow> 'a queue \<Rightarrow> 'a queue" where
  "destroy_at i q =
     q\<lparr>slots := (slots q)[i := destroy (slots q ! i)],
       destroyed := Suc (destroyed q)\<rparr>"

definition store_turn :: "nat \<Rightarrow> size_t \<Rightarrow> 'a queue \<Rightarrow> 'a queue" where
  "store_turn i t q = q\<lparr>slots := (slots q)[i := (slots q ! i)\<lparr>turn := t\<rparr>]\<rparr>"

subsection \<open>Other threads\<close>

text \<open>
  The operations are sequences of atomic steps on shared memory. Between two steps of
  one thread the other threads may write: store to \<^verbatim>\<open>head_\<close> or \<^verbatim>\<open>tail_\<close>
  (their fetch-add and compare-exchange), store the turn of a slot, construct or destroy
  the element of a slot. A schedule lists, for each atomic step of the thread under
  observation, the writes the other threads make just before it; its length bounds the
  number of steps observed. The schedule \<open>quiet n\<close> is \<open>n\<close> steps of a thread
  running alone.
\<close>

datatype 'a action =
    Store_head size_t
  | Store_tail size_t
  | Store_turn nat size_t
  | Construct nat 'a
  | Destroy nat

fun act :: "'a action \<Rightarrow> 'a queue \<Rightarrow> 'a queue" where
  "act (Store_head h) q = q\<lparr>head := h\<rparr>"
| "act (Store_tail t) q = q\<lparr>tail := t\<rparr>"
| "act (Store_turn i t) q = store_turn i t q"
| "act (Construct i v) q = construct_at i v q"
| "act (Destroy i) q = destroy_at i q"

definition interfere :: "'a action list \<Rightarrow> 'a queue \<Rightarrow> 'a queue" where
  "interfere as q = fold act as q"

type_synonym 'a schedule = "'a action list list"

definition quiet :: "nat \<Rightarrow> 'a schedule" where
  "quiet n = replicate n []"

subsection \<open>Blocking enqueue: \<^verbatim>\<open>emplace\<close>\<close>

text \<open>
  \<^verbatim>\<open>while (turn_(head) * 2 != slot.turn.load(acquire)) ;\<close> One load of the turn
  per step; the loop has not exited when the schedule ends (\<open>None\<close>).
\<close>

fun emplace_wait :: "'a schedule \<Rightarrow> size_t \<Rightarrow> 'a queue \<Rightarrow> ('a schedule \<times> 'a queue) option" where
  "emplace_wait [] h q = None"
| "emplace_wait (e # es) h q =
     (let q1 = interfere e q in
      if turn_of q1 h * 2 \<noteq> turn (slots q1 ! slot_of q1 h)
      then emplace_wait es h q1
      else Some (es, q1))"

text \<open>
  The two statements after the wait, \<^verbatim>\<open>slot.construct(args...)\<close> and
  \<^verbatim>\<open>slot.turn.store(turn_(head) * 2 + 1, release)\<close>, one step each.
\<close>

fun publish_element :: "'a schedule \<Rightarrow> size_t \<Rightarrow> 'a \<Rightarrow> 'a queue \<Rightarrow> 'a queue option" where
  "publish_element (e1 # e2 # es) h v q =
     (let q1 = construct_at (slot_of q h) v (interfere e1 q);
          q2 = store_turn (slot_of q1 h) (turn_of q1 h * 2 + 1) (interfere e2 q1)
      in Some q2)"
| "publish_element _ h v q = None"

text \<open>\<^verbatim>\<open>emplace\<close>: the fetch-add on \<^verbatim>\<open>head_\<close>, the wait, the two statements.\<close>

fun emplace :: "'a schedule \<Rightarrow> 'a \<Rightarrow> 'a queue \<Rightarrow> 'a queue option" where
  "emplace [] v q = None"
| "emplace (e # es) v q =
     (let q0 = interfere e q;
          h = head q0;
          q1 = q0\<lparr>head := h + 1\<rparr>
      in case emplace_wait es h q1 of
           None \<Rightarrow> None
         | Some (es', q2) \<Rightarrow> publish_element es' h v q2)"

subsection \<open>Non-blocking enqueue: \<^verbatim>\<open>try_emplace\<close>\<close>

text \<open>
  What a thread reads from the shared counters and turns, in the order it reads them:
  a load of \<^verbatim>\<open>head_\<close> (of \<^verbatim>\<open>tail_\<close> in the dequeue), a load of a slot's
  turn, and the outcome of a compare-exchange. A successful compare-exchange found the
  counter at the expected value; a failed one found another value and copied it
  into the local variable.
\<close>

datatype obs =
    Load_counter size_t
  | Load_turn nat size_t
  | Cas_ok size_t
  | Cas_failed size_t

text \<open>
  The body of \<^verbatim>\<open>for (;;)\<close> in \<^verbatim>\<open>try_emplace\<close>: the load of the turn is one
  step, the compare-exchange or the reload of \<^verbatim>\<open>head_\<close> the next. The local
  variable \<^verbatim>\<open>head\<close> is the parameter \<open>h\<close>; the observations made are appended
  to \<open>log\<close>.
\<close>

fun try_emplace_loop ::
  "'a schedule \<Rightarrow> size_t \<Rightarrow> 'a \<Rightarrow> 'a queue \<Rightarrow> obs list \<Rightarrow> (bool \<times> 'a queue \<times> obs list) option" where
  "try_emplace_loop (e1 # e2 # es) h v q log =
     (let q1 = interfere e1 q;
          t = turn (slots q1 ! slot_of q1 h);
          q2 = interfere e2 q1
      in if turn_of q1 h * 2 = t then
           (if head q2 = h then
              (case publish_element es h v (q2\<lparr>head := h + 1\<rparr>) of
                 None \<Rightarrow> None
               | Some q3 \<Rightarrow> Some (True, q3, log @ [Load_turn (slot_of q1 h) t, Cas_ok h]))
            else try_emplace_loop es (head q2) v q2
                   (log @ [Load_turn (slot_of q1 h) t, Cas_failed (head q2)]))
         else
           (let prev_head = h;
                h' = head q2
            in if h' = prev_head
               then Some (False, q2, log @ [Load_turn (slot_of q1 h) t, Load_counter h'])
               else try_emplace_loop es h' v q2
                      (log @ [Load_turn (slot_of q1 h) t, Load_counter h'])))"
| "try_emplace_loop _ h v q log = None"

fun try_emplace :: "'a schedule \<Rightarrow> 'a \<Rightarrow> 'a queue \<Rightarrow> (bool \<times> 'a queue \<times> obs list) option" where
  "try_emplace [] v q = None"
| "try_emplace (e # es) v q =
     (let q0 = interfere e q;
          h = head q0
      in try_emplace_loop es h v q0 [Load_counter h])"

subsection \<open>Blocking dequeue: \<^verbatim>\<open>pop\<close>\<close>

text \<open>\<^verbatim>\<open>while (turn_(tail) * 2 + 1 != slot.turn.load(acquire)) ;\<close>\<close>

fun pop_wait :: "'a schedule \<Rightarrow> size_t \<Rightarrow> 'a queue \<Rightarrow> ('a schedule \<times> 'a queue) option" where
  "pop_wait [] t q = None"
| "pop_wait (e # es) t q =
     (let q1 = interfere e q in
      if turn_of q1 t * 2 + 1 \<noteq> turn (slots q1 ! slot_of q1 t)
      then pop_wait es t q1
      else Some (es, q1))"

text \<open>
  The three statements after the wait: \<^verbatim>\<open>v = slot.move()\<close>,
  \<^verbatim>\<open>slot.destroy()\<close> and \<^verbatim>\<open>slot.turn.store(turn_(tail) * 2 + 2, release)\<close>.
  The result is the new content of the caller's \<^verbatim>\<open>v\<close> and the queue.
\<close>

fun take_element :: "'a schedule \<Rightarrow> size_t \<Rightarrow> 'a queue \<Rightarrow> ('a \<times> 'a queue) option" where
  "take_element (e1 # e2 # e3 # es) t q =
     (let q1 = interfere e1 q;
          v = move (slots q1 ! slot_of q1 t);
          q2 = destroy_at (slot_of q1 t) (interfere e2 q1);
          q3 = store_turn (slot_of q2 t) (turn_of q2 t * 2 + 2) (interfere e3 q2)
      in Some (v, q3))"
| "take_element _ t q = None"

text \<open>
  \<^verbatim>\<open>pop\<close>: the fetch-add on \<^verbatim>\<open>tail_\<close>, the wait, the three statements. The
  caller's variable holds \<open>v\<close> before the call.
\<close>

fun pop :: "'a schedule \<Rightarrow> 'a \<Rightarrow> 'a queue \<Rightarrow> ('a \<times> 'a queue) option" where
  "pop [] v q = None"
| "pop (e # es) v q =
     (let q0 = interfere e q;
          t = tail q0;
          q1 = q0\<lparr>tail := t + 1\<rparr>
      in case pop_wait es t q1 of
           None \<Rightarrow> None
         | Some (es', q2) \<Rightarrow> take_element es' t q2)"

subsection \<open>Non-blocking dequeue: \<^verbatim>\<open>try_pop\<close>\<close>

text \<open>
  The body of \<^verbatim>\<open>for (;;)\<close> in \<^verbatim>\<open>try_pop\<close>. The result is the returned flag,
  the content of the caller's \<^verbatim>\<open>v\<close> after the call, the queue and the
  observations.
\<close>

fun try_pop_loop ::
  "'a schedule \<Rightarrow> size_t \<Rightarrow> 'a \<Rightarrow> 'a queue \<Rightarrow> obs list \<Rightarrow> (bool \<times> 'a \<times> 'a queue \<times> obs list) option" where
  "try_pop_loop (e1 # e2 # es) t v q log =
     (let q1 = interfere e1 q;
          u = turn (slots q1 ! slot_of q1 t);
          q2 = interfere e2 q1
      in if turn_of q1 t * 2 + 1 = u then
           (if tail q2 = t then
              (case take_element es t (q2\<lparr>tail := t + 1\<rparr>) of
                 None \<Rightarrow> None
               | Some (v', q3) \<Rightarrow> Some (True, v', q3, log @ [Load_turn (slot_of q1 t) u, Cas_ok t]))
            else try_pop_loop es (tail q2) v q2
                   (log @ [Load_turn (slot_of q1 t) u, Cas_failed (tail q2)]))
         else
           (let prev_tail = t;
                t' = tail q2
            in if t' = prev_tail
               then Some (False, v, q2, log @ [Load_turn (slot_of q1 t) u, Load_counter t'])
               else try_pop_loop es t' v q2
                      (log @ [Load_turn (slot_of q1 t) u, Load_counter t'])))"
| "try_pop_loop _ t v q log = None"

fun try_pop :: "'a schedule \<Rightarrow> 'a \<Rightarrow> 'a queue \<Rightarrow> (bool \<times> 'a \<times> 'a queue \<times> obs list) option" where
  "try_pop [] v q = None"
| "try_pop (e # es) v q =
     (let q0 = interfere e q;
          t = tail q0
      in try_pop_loop es t v q0 [Load_counter t])"

subsection \<open>\<^verbatim>\<open>size\<close> and \<^verbatim>\<open>empty\<close>\<close>

text \<open>
  \<^verbatim>\<open>static_cast<ptrdiff_t>(head_.load(relaxed) - tail_.load(relaxed))\<close>: the
  subtraction is unsigned and wraps, the cast reads the result as two's complement.
\<close>

definition queue_size :: "'a queue \<Rightarrow> int" where
  "queue_size q = sint (head q - tail q)"

definition queue_empty :: "'a queue \<Rightarrow> bool" where
  "queue_empty q = (queue_size q \<le> 0)"

subsection \<open>Construction and destruction\<close>

text \<open>
  The exceptions of the constructor, and the one behaviour C++ leaves undefined that it
  can reach: a placement-new past the end of the block the allocator returned.
\<close>

datatype error = Invalid_argument | Bad_alloc | Bad_array_new_length | Out_of_bounds

text \<open>
  The allocator is a template parameter; the constructor and the destructor use its
  \<^verbatim>\<open>allocate(n)\<close> and \<^verbatim>\<open>deallocate(p, n)\<close> only. \<open>allocate_fn\<close> is what a call
  of \<^verbatim>\<open>allocate(n)\<close> does, throw or return an address; \<open>blocks\<close> lists the blocks
  handed out and not yet given back, each with the number of slots it was requested for.
\<close>

record allocator =
  allocate_fn :: "size_t \<Rightarrow> error + size_t"
  blocks :: "(size_t \<times> size_t) list"

definition allocate :: "allocator \<Rightarrow> size_t \<Rightarrow> (error + size_t) \<times> allocator" where
  "allocate al n =
     (case allocate_fn al n of
        Inl e \<Rightarrow> (Inl e, al)
      | Inr p \<Rightarrow> (Inr p, al\<lparr>blocks := (p, n) # blocks al\<rparr>))"

definition deallocate :: "allocator \<Rightarrow> size_t \<Rightarrow> size_t \<Rightarrow> allocator" where
  "deallocate al p n = al\<lparr>blocks := remove1 (p, n) (blocks al)\<rparr>"

text \<open>
  \<^verbatim>\<open>hardware_interference_size\<close>, 64 where the library does not define it. The
  constructor's \<^verbatim>\<open>static_assert\<close> makes \<^verbatim>\<open>alignof(slot<T>)\<close> equal to it.
\<close>

definition hardware_interference_size :: size_t where
  "hardware_interference_size = 64"

definition alignof_slot :: size_t where
  "alignof_slot = hardware_interference_size"

text \<open>
  \<^verbatim>\<open>for (size_t i = 0; i < capacity_; ++i) new (&slots_[i]) slot<T>();\<close> on a block
  of \<open>n\<close> slots: \<open>ss\<close> are the slots constructed so far.
\<close>

function construct_slots :: "size_t \<Rightarrow> size_t \<Rightarrow> size_t \<Rightarrow> 'a slot list \<Rightarrow> error + 'a slot list" where
  "construct_slots i cap n ss =
     (if i < cap then
        (if i < n then construct_slots (i + 1) cap n (ss @ [slot_init])
         else Inl Out_of_bounds)
      else Inr ss)"
  by pat_completeness auto
termination
proof (relation "measure (\<lambda>(i, cap, n, ss). unat cap - unat i)")
  fix i cap n :: size_t and ss :: "'a slot list"
  assume "i < cap"
  then have less: "unat i < unat cap"
    by (simp add: word_less_nat_alt)
  moreover have "unat cap < 2 ^ 64"
    using unsigned_less [of cap] by simp
  ultimately have "unat i + 1 < 2 ^ 64"
    by linarith
  then have "unat (i + 1) = Suc (unat i)"
    by (simp add: unat_word_ariths)
  with less show "((i + 1, cap, n, ss @ [slot_init]), (i, cap, n, ss))
      \<in> measure (\<lambda>(i, cap, n, ss). unat cap - unat i)"
    by simp
qed simp

text \<open>
  \<^verbatim>\<open>queue(capacity, alloc)\<close>: the capacity check, the allocation of
  \<^verbatim>\<open>capacity_ + 1\<close> slots, the alignment check with its \<^verbatim>\<open>deallocate\<close>, the
  loop. The result is the exception or the queue, and the allocator afterwards.
\<close>

definition queue_ctor :: "size_t \<Rightarrow> allocator \<Rightarrow> (error + 'a queue) \<times> allocator" where
  "queue_ctor cap al =
     (if cap < 1 then (Inl Invalid_argument, al)
      else case allocate al (cap + 1) of
             (Inl e, al1) \<Rightarrow> (Inl e, al1)
           | (Inr p, al1) \<Rightarrow>
               if p mod alignof_slot \<noteq> 0
               then (Inl Bad_alloc, deallocate al1 p (cap + 1))
               else (case construct_slots 0 cap (cap + 1) [] of
                       Inl e \<Rightarrow> (Inl e, al1)
                     | Inr ss \<Rightarrow>
                         (Inr \<lparr>capacity = cap, slots_ptr = p, slots = ss, head = 0, tail = 0,
                               constructed = 0, destroyed = 0\<rparr>, al1)))"

text \<open>\<^verbatim>\<open>~slot()\<close>: \<^verbatim>\<open>if (turn & 1) destroy();\<close>\<close>

definition slot_dtor :: "nat \<Rightarrow> 'a queue \<Rightarrow> 'a queue" where
  "slot_dtor i q = (if turn (slots q ! i) AND 1 \<noteq> 0 then destroy_at i q else q)"

text \<open>
  \<^verbatim>\<open>~queue()\<close>: the slot destructors in index order, then
  \<^verbatim>\<open>allocator_.deallocate(slots_, capacity_ + 1)\<close>.
\<close>

definition queue_dtor :: "'a queue \<Rightarrow> allocator \<Rightarrow> 'a queue \<times> allocator" where
  "queue_dtor q al =
     (fold slot_dtor [0..<unat (capacity q)] q,
      deallocate al (slots_ptr q) (capacity q + 1))"

subsection \<open>The static assertions on the element type\<close>

text \<open>
  The type traits the header asks about the element type \<^verbatim>\<open>T\<close>. The class asserts
  two conditions; \<^verbatim>\<open>push(const T &)\<close> and \<^verbatim>\<open>try_push(const T &)\<close> assert a
  third when they are instantiated; \<^verbatim>\<open>push(P &&)\<close> and \<^verbatim>\<open>try_push(P &&)\<close> take
  part in overload resolution for \<^verbatim>\<open>P = T\<close> under a fourth.
\<close>

record type_traits =
  is_nothrow_copy_assignable :: bool
  is_nothrow_move_assignable :: bool
  is_nothrow_destructible :: bool
  is_nothrow_copy_constructible :: bool
  is_nothrow_move_constructible :: bool

definition queue_static_assert :: "type_traits \<Rightarrow> bool" where
  "queue_static_assert T =
     ((is_nothrow_copy_assignable T \<or> is_nothrow_move_assignable T) \<and>
      is_nothrow_destructible T)"

definition push_copy_static_assert :: "type_traits \<Rightarrow> bool" where
  "push_copy_static_assert T = is_nothrow_copy_constructible T"

definition push_rvalue_enabled :: "type_traits \<Rightarrow> bool" where
  "push_rvalue_enabled T = is_nothrow_move_constructible T"

subsection \<open>One thread calling the queue\<close>

text \<open>
  A program of one thread is a list of calls; each runs on a quiet schedule of \<open>n\<close>
  steps. A call that has not returned after \<open>n\<close> steps ends the run with \<open>None\<close>.
  \<open>Pop v\<close> and \<open>Try_pop v\<close> pass a variable that holds \<open>v\<close>.
\<close>

datatype 'a call = Emplace 'a | Try_emplace 'a | Pop 'a | Try_pop 'a

datatype 'a outcome = Enqueued 'a | Dequeued 'a | Refused

fun perform :: "nat \<Rightarrow> 'a call \<Rightarrow> 'a queue \<Rightarrow> ('a outcome \<times> 'a queue) option" where
  "perform n (Emplace v) q =
     (case emplace (quiet n) v q of
        None \<Rightarrow> None
      | Some q' \<Rightarrow> Some (Enqueued v, q'))"
| "perform n (Try_emplace v) q =
     (case try_emplace (quiet n) v q of
        None \<Rightarrow> None
      | Some (b, q', log) \<Rightarrow> Some (if b then Enqueued v else Refused, q'))"
| "perform n (Pop v) q =
     (case pop (quiet n) v q of
        None \<Rightarrow> None
      | Some (v', q') \<Rightarrow> Some (Dequeued v', q'))"
| "perform n (Try_pop v) q =
     (case try_pop (quiet n) v q of
        None \<Rightarrow> None
      | Some (b, v', q', log) \<Rightarrow> Some (if b then Dequeued v' else Refused, q'))"

fun run :: "nat \<Rightarrow> 'a call list \<Rightarrow> 'a queue \<Rightarrow> ('a outcome list \<times> 'a queue) option" where
  "run n [] q = Some ([], q)"
| "run n (c # cs) q =
     (case perform n c q of
        None \<Rightarrow> None
      | Some (r, q1) \<Rightarrow>
          (case run n cs q1 of
             None \<Rightarrow> None
           | Some (rs, q2) \<Rightarrow> Some (r # rs, q2)))"

text \<open>The values enqueued and the values dequeued by a run, in order.\<close>

fun enqueued :: "'a outcome list \<Rightarrow> 'a list" where
  "enqueued [] = []"
| "enqueued (Enqueued v # rs) = v # enqueued rs"
| "enqueued (r # rs) = enqueued rs"

fun dequeued :: "'a outcome list \<Rightarrow> 'a list" where
  "dequeued [] = []"
| "dequeued (Dequeued v # rs) = v # dequeued rs"
| "dequeued (r # rs) = dequeued rs"

subsection \<open>Predicates on the state of the ring\<close>

text \<open>
  The condition on which the wait of \<^verbatim>\<open>emplace\<close> for ticket \<open>h\<close> ends (the one
  \<^verbatim>\<open>try_emplace\<close> tests), and the one for \<^verbatim>\<open>pop\<close> and \<^verbatim>\<open>try_pop\<close>
  with ticket \<open>t\<close>.
\<close>

definition ready_to_fill :: "'a queue \<Rightarrow> size_t \<Rightarrow> bool" where
  "ready_to_fill q h \<longleftrightarrow> turn (slots q ! slot_of q h) = turn_of q h * 2"

definition ready_to_take :: "'a queue \<Rightarrow> size_t \<Rightarrow> bool" where
  "ready_to_take q t \<longleftrightarrow> turn (slots q ! slot_of q t) = turn_of q t * 2 + 1"

text \<open>
  What the writes of an enqueue make of the queue when no other thread writes in between:
  the ticket taken from \<^verbatim>\<open>head_\<close>, the element constructed, the turn stored. And
  the same for a dequeue.
\<close>

definition filled :: "'a \<Rightarrow> 'a queue \<Rightarrow> 'a queue" where
  "filled v q =
     store_turn (slot_of q (head q)) (turn_of q (head q) * 2 + 1)
       (construct_at (slot_of q (head q)) v (q\<lparr>head := head q + 1\<rparr>))"

definition taken :: "'a queue \<Rightarrow> 'a queue" where
  "taken q =
     store_turn (slot_of q (tail q)) (turn_of q (tail q) * 2 + 2)
       (destroy_at (slot_of q (tail q)) (q\<lparr>tail := tail q + 1\<rparr>))"

text \<open>The constructor leaves \<^verbatim>\<open>capacity_\<close> slots behind \<^verbatim>\<open>slots_\<close>, at least one.\<close>

definition ring_ok :: "'a queue \<Rightarrow> bool" where
  "ring_ok q \<longleftrightarrow> capacity q \<noteq> 0 \<and> length (slots q) = unat (capacity q)"

text \<open>The elements live in the slots, as a multiset.\<close>

fun mset_option :: "'a option \<Rightarrow> 'a multiset" where
  "mset_option None = {#}"
| "mset_option (Some v) = {#v#}"

definition stored :: "'a queue \<Rightarrow> 'a multiset" where
  "stored q = mset (List.map_filter storage (slots q))"

text \<open>
  A slot agrees with its turn when it holds an element exactly if the turn is odd. A queue
  is balanced when all its slots do and every element constructed is destroyed or stored.
\<close>

definition parity_ok :: "'a slot \<Rightarrow> bool" where
  "parity_ok s \<longleftrightarrow> (even (turn s) \<longleftrightarrow> storage s = None)"

definition balanced :: "'a queue \<Rightarrow> bool" where
  "balanced q \<longleftrightarrow>
     ring_ok q \<and> list_all parity_ok (slots q) \<and>
     constructed q = destroyed q + size (stored q)"

text \<open>
  The ring as a window of tickets. \<open>h\<close> enqueue tickets and \<open>t\<close> dequeue tickets have
  been served, counted without wrap-around, and \<open>xs\<close> are the elements enqueued and not
  yet dequeued, oldest first. Ticket \<open>k\<close> belongs to slot \<open>k mod capacity\<close> and to
  generation \<open>k div capacity\<close>. The slots of the tickets \<open>t, ..., h - 1\<close> are full, at
  turn \<open>2 * generation + 1\<close>; the slots of the tickets \<open>h, ..., t + capacity - 1\<close>
  are empty, at turn \<open>2 * generation\<close>. The counters are the ticket numbers modulo
  \<open>2^64\<close>, and only a ring of one or two slots is served past \<open>2^64\<close> tickets.
\<close>

definition window :: "'a queue \<Rightarrow> nat \<Rightarrow> nat \<Rightarrow> 'a list \<Rightarrow> bool" where
  "window q h t xs \<longleftrightarrow>
     ring_ok q \<and> head q = of_nat h \<and> tail q = of_nat t \<and> h = t + length xs \<and>
     length xs \<le> unat (capacity q) \<and> (unat (capacity q) \<le> 2 \<or> h \<le> 2 ^ 64) \<and>
     (\<forall>k \<in> {t..<h}. slots q ! (k mod unat (capacity q)) =
        \<lparr>turn = of_nat (2 * (k div unat (capacity q)) + 1), storage = Some (xs ! (k - t))\<rparr>) \<and>
     (\<forall>k \<in> {h..<t + unat (capacity q)}. slots q ! (k mod unat (capacity q)) =
        \<lparr>turn = of_nat (2 * (k div unat (capacity q))), storage = None\<rparr>)"

text \<open>
  A queue holds the elements \<open>xs\<close> when it is such a window for the ticket numbers its
  counters show: \<^verbatim>\<open>tail_\<close> is not above \<^verbatim>\<open>head_\<close> and the counters have not
  wrapped.
\<close>

definition holding :: "'a queue \<Rightarrow> 'a list \<Rightarrow> bool" where
  "holding q xs \<longleftrightarrow> window q (unat (head q)) (unat (tail q)) xs"

subsection \<open>States and allocators of the examples\<close>

text \<open>An allocator that hands out the page-aligned address 4096 for every request.\<close>

definition page_allocator :: allocator where
  "page_allocator = \<lparr>allocate_fn = (\<lambda>n. Inr 4096), blocks = []\<rparr>"

text \<open>
  A queue of capacity 1 one step into a \<^verbatim>\<open>pop\<close> on the empty queue: the consumer
  has done its fetch-add on \<^verbatim>\<open>tail_\<close> and waits for a producer.
\<close>

definition waiting_reader :: "int queue" where
  "waiting_reader =
     \<lparr>capacity = 1, slots_ptr = 4096, slots = [slot_init], head = 0, tail = 1,
      constructed = 0, destroyed = 0\<rparr>"

section \<open>Properties\<close>

subsection \<open>A thread running alone\<close>

text \<open>What the four operations do on a quiet schedule of \<open>n\<close> steps.\<close>

lemma interfere_Nil [simp]: "interfere [] q = q"
  by (simp add: interfere_def)

lemma quiet_Suc [simp]: "quiet (Suc n) = [] # quiet n"
  by (simp add: quiet_def)

lemma quiet_0 [simp]: "quiet 0 = []"
  by (simp add: quiet_def)

lemma emplace_wait_quiet:
  "emplace_wait (quiet n) h q =
     (if 0 < n \<and> ready_to_fill q h then Some (quiet (n - 1), q) else None)"
  by (induction n) (auto simp: ready_to_fill_def)

lemma pop_wait_quiet:
  "pop_wait (quiet n) t q =
     (if 0 < n \<and> ready_to_take q t then Some (quiet (n - 1), q) else None)"
  by (induction n) (auto simp: ready_to_take_def)

lemma ge_SucE: "Suc k \<le> n \<Longrightarrow> (\<And>m. n = Suc m \<Longrightarrow> k \<le> m \<Longrightarrow> P) \<Longrightarrow> P"
  by (cases n) auto

lemma ready_head_upd [simp]: "ready_to_fill (q\<lparr>head := x\<rparr>) h = ready_to_fill q h"
  by (simp add: ready_to_fill_def slot_of_def idx_def turn_of_def)

lemma ready_tail_upd [simp]: "ready_to_take (q\<lparr>tail := x\<rparr>) h = ready_to_take q h"
  by (simp add: ready_to_take_def slot_of_def idx_def turn_of_def)

lemma publish_element_quiet:
  "publish_element (quiet n) h v q =
     (if 2 \<le> n then Some (store_turn (slot_of q h) (turn_of q h * 2 + 1) (construct_at (slot_of q h) v q)) else None)"
proof (cases "2 \<le> n")
  case True
  then obtain m where "n = Suc (Suc m)"
    by (metis Suc_le_D numeral_2_eq_2 Suc_le_mono)
  then show ?thesis
    by (simp add: slot_of_def idx_def turn_of_def construct_at_def)
next
  case False
  then have "n = 0 \<or> n = 1" by linarith
  then show ?thesis using False by auto
qed

lemma take_element_quiet:
  "take_element (quiet n) t q =
     (if 3 \<le> n then Some (move (slots q ! slot_of q t),
        store_turn (slot_of q t) (turn_of q t * 2 + 2) (destroy_at (slot_of q t) q)) else None)"
proof (cases "3 \<le> n")
  case True
  then obtain m where "n = Suc (Suc (Suc m))"
    by (metis Suc_le_D numeral_3_eq_3 Suc_le_mono)
  then show ?thesis
    by (simp add: slot_of_def idx_def turn_of_def destroy_at_def)
next
  case False
  then have "n = 0 \<or> n = 1 \<or> n = 2" by linarith
  then show ?thesis using False by (auto simp: numeral_2_eq_2)
qed

lemma emplace_quiet:
  "emplace (quiet n) v q =
     (if 4 \<le> n \<and> ready_to_fill q (head q) then Some (filled v q) else None)"
proof (cases n)
  case 0
  then show ?thesis by simp
next
  case (Suc m)
  then show ?thesis
    by (auto simp: Let_def emplace_wait_quiet publish_element_quiet filled_def slot_of_def idx_def turn_of_def)
qed

lemma pop_quiet:
  "pop (quiet n) v q =
     (if 5 \<le> n \<and> ready_to_take q (tail q)
      then Some (move (slots q ! slot_of q (tail q)), taken q) else None)"
proof (cases n)
  case 0
  then show ?thesis by simp
next
  case (Suc m)
  then show ?thesis
    by (auto simp: Let_def pop_wait_quiet take_element_quiet taken_def slot_of_def idx_def turn_of_def)
qed

lemma try_emplace_loop_quiet:
  "try_emplace_loop (quiet n) (head q) v q log =
     (if ready_to_fill q (head q)
      then (if 4 \<le> n then Some (True, filled v q,
              log @ [Load_turn (slot_of q (head q)) (turn (slots q ! slot_of q (head q))), Cas_ok (head q)]) else None)
      else (if 2 \<le> n then Some (False, q,
              log @ [Load_turn (slot_of q (head q)) (turn (slots q ! slot_of q (head q))), Load_counter (head q)]) else None))"
proof (cases "2 \<le> n")
  case True
  then obtain m where "n = Suc (Suc m)"
    by (metis Suc_le_D numeral_2_eq_2 Suc_le_mono)
  then show ?thesis
    by (auto simp: Let_def publish_element_quiet filled_def ready_to_fill_def slot_of_def idx_def turn_of_def)
next
  case False
  then have "n = 0 \<or> n = 1" by linarith
  then show ?thesis using False by auto
qed

lemma try_emplace_quiet:
  "try_emplace (quiet n) v q =
     (if ready_to_fill q (head q)
      then (if 5 \<le> n then Some (True, filled v q,
              [Load_counter (head q), Load_turn (slot_of q (head q)) (turn (slots q ! slot_of q (head q))), Cas_ok (head q)]) else None)
      else (if 3 \<le> n then Some (False, q,
              [Load_counter (head q), Load_turn (slot_of q (head q)) (turn (slots q ! slot_of q (head q))), Load_counter (head q)]) else None))"
proof (cases n)
  case 0
  then show ?thesis by simp
next
  case (Suc m)
  then show ?thesis
    by (auto simp: Let_def try_emplace_loop_quiet)
qed

lemma try_pop_loop_quiet:
  "try_pop_loop (quiet n) (tail q) v q log =
     (if ready_to_take q (tail q)
      then (if 5 \<le> n then Some (True, move (slots q ! slot_of q (tail q)), taken q,
              log @ [Load_turn (slot_of q (tail q)) (turn (slots q ! slot_of q (tail q))), Cas_ok (tail q)]) else None)
      else (if 2 \<le> n then Some (False, v, q,
              log @ [Load_turn (slot_of q (tail q)) (turn (slots q ! slot_of q (tail q))), Load_counter (tail q)]) else None))"
proof (cases "2 \<le> n")
  case True
  then obtain m where "n = Suc (Suc m)"
    by (metis Suc_le_D numeral_2_eq_2 Suc_le_mono)
  then show ?thesis
    by (auto simp: Let_def take_element_quiet taken_def ready_to_take_def slot_of_def idx_def turn_of_def)
next
  case False
  then have "n = 0 \<or> n = 1" by linarith
  then show ?thesis using False by auto
qed

lemma try_pop_quiet:
  "try_pop (quiet n) v q =
     (if ready_to_take q (tail q)
      then (if 6 \<le> n then Some (True, move (slots q ! slot_of q (tail q)), taken q,
              [Load_counter (tail q), Load_turn (slot_of q (tail q)) (turn (slots q ! slot_of q (tail q))), Cas_ok (tail q)]) else None)
      else (if 3 \<le> n then Some (False, v, q,
              [Load_counter (tail q), Load_turn (slot_of q (tail q)) (turn (slots q ! slot_of q (tail q))), Load_counter (tail q)]) else None))"
proof (cases n)
  case 0
  then show ?thesis by simp
next
  case (Suc m)
  then show ?thesis
    by (auto simp: Let_def try_pop_loop_quiet)
qed

subsection \<open>Slots, parity and the element count\<close>

lemma slot_of_less: "ring_ok q \<Longrightarrow> slot_of q h < length (slots q)"
  by (simp add: ring_ok_def slot_of_def idx_def unat_mod_distrib unat_gt_0)

lemma slot_eq_iff: "s = \<lparr>turn = t, storage = x\<rparr> \<longleftrightarrow> turn s = t \<and> storage s = x"
  by (cases s) auto

lemma slot_overwrite: "(s::'a slot)\<lparr>storage := x, turn := t\<rparr> = \<lparr>turn = t, storage = x\<rparr>"
  by (cases s) simp

lemma slots_filled:
  "slots (filled v q) =
     (slots q)[slot_of q (head q) := \<lparr>turn = turn_of q (head q) * 2 + 1, storage = Some v\<rparr>]"
proof (cases "slot_of q (head q) < length (slots q)")
  case True
  then show ?thesis
    by (simp add: filled_def store_turn_def construct_at_def construct_def slot_of_def idx_def
        turn_of_def slot_overwrite)
next
  case False
  then show ?thesis
    by (simp add: filled_def store_turn_def construct_at_def construct_def slot_of_def idx_def
        turn_of_def list_update_beyond)
qed

lemma slots_taken:
  "slots (taken q) =
     (slots q)[slot_of q (tail q) := \<lparr>turn = turn_of q (tail q) * 2 + 2, storage = None\<rparr>]"
proof (cases "slot_of q (tail q) < length (slots q)")
  case True
  then show ?thesis
    by (simp add: taken_def store_turn_def destroy_at_def destroy_def slot_of_def idx_def
        turn_of_def slot_overwrite)
next
  case False
  then show ?thesis
    by (simp add: taken_def store_turn_def destroy_at_def destroy_def slot_of_def idx_def
        turn_of_def list_update_beyond)
qed

lemma fields_filled [simp]:
  "capacity (filled v q) = capacity q" "head (filled v q) = head q + 1"
  "tail (filled v q) = tail q" "constructed (filled v q) = Suc (constructed q)"
  "destroyed (filled v q) = destroyed q" "slots_ptr (filled v q) = slots_ptr q"
  by (simp_all add: filled_def store_turn_def construct_at_def)

lemma fields_taken [simp]:
  "capacity (taken q) = capacity q" "head (taken q) = head q"
  "tail (taken q) = tail q + 1" "constructed (taken q) = constructed q"
  "destroyed (taken q) = Suc (destroyed q)" "slots_ptr (taken q) = slots_ptr q"
  by (simp_all add: taken_def store_turn_def destroy_at_def)

lemma map_filter_Cons: "List.map_filter f (x # xs) = (case f x of None \<Rightarrow> List.map_filter f xs | Some v \<Rightarrow> v # List.map_filter f xs)"
  by (simp add: List.map_filter_simps split: option.splits)

lemma mset_map_filter_update:
  "i < length xs \<Longrightarrow>
     mset (List.map_filter f (xs[i := x])) + mset_option (f (xs ! i)) =
     mset (List.map_filter f xs) + mset_option (f x)"
proof (induction xs arbitrary: i)
  case Nil
  then show ?case by simp
next
  case (Cons y ys)
  show ?case
  proof (cases i)
    case 0
    then show ?thesis
      by (cases "f y"; cases "f x") (simp_all add: List.map_filter_simps)
  next
    case (Suc j)
    with Cons.prems have "j < length ys" by simp
    from Cons.IH [OF this] Suc show ?thesis
      by (cases "f y") (simp_all add: List.map_filter_simps)
  qed
qed

lemma stored_filled:
  assumes "ring_ok q" "storage (slots q ! slot_of q (head q)) = None"
  shows "stored (filled v q) = add_mset v (stored q)"
  using mset_map_filter_update [OF slot_of_less [OF assms(1)], of storage "head q"
      "\<lparr>turn = turn_of q (head q) * 2 + 1, storage = Some v\<rparr>"] assms(2)
  by (simp add: stored_def slots_filled)

lemma stored_taken:
  assumes "ring_ok q" "storage (slots q ! slot_of q (tail q)) = Some x"
  shows "add_mset x (stored (taken q)) = stored q"
  using mset_map_filter_update [OF slot_of_less [OF assms(1)], of storage "tail q"
      "\<lparr>turn = turn_of q (tail q) * 2 + 2, storage = None\<rparr>"] assms(2)
  by (simp add: stored_def slots_taken)

lemma list_all_update:
  "list_all P xs \<Longrightarrow> P x \<Longrightarrow> list_all P (xs[i := x])"
  by (induction xs arbitrary: i) (auto split: nat.splits)

lemma balanced_filled:
  assumes "balanced q" "ready_to_fill q (head q)"
  shows "balanced (filled v q) \<and> stored (filled v q) = add_mset v (stored q)"
proof -
  from assms(1) have ring_ok: "ring_ok q" and par: "list_all parity_ok (slots q)"
    and cnt: "constructed q = destroyed q + size (stored q)"
    by (simp_all add: balanced_def)
  have "parity_ok (slots q ! slot_of q (head q))"
    using par slot_of_less [OF ring_ok] by (simp add: list_all_length)
  with assms(2) have none: "storage (slots q ! slot_of q (head q)) = None"
    by (simp add: parity_ok_def ready_to_fill_def)
  have st: "stored (filled v q) = add_mset v (stored q)"
    by (rule stored_filled [OF ring_ok none])
  have "list_all parity_ok (slots (filled v q))"
    unfolding slots_filled by (rule list_all_update [OF par]) (simp add: parity_ok_def)
  moreover have "ring_ok (filled v q)"
    using ring_ok by (simp add: ring_ok_def slots_filled)
  ultimately show ?thesis
    using st cnt by (simp add: balanced_def)
qed

lemma balanced_taken:
  assumes "balanced q" "ready_to_take q (tail q)"
  shows "balanced (taken q) \<and>
         add_mset (move (slots q ! slot_of q (tail q))) (stored (taken q)) = stored q"
proof -
  from assms(1) have ring_ok: "ring_ok q" and par: "list_all parity_ok (slots q)"
    and cnt: "constructed q = destroyed q + size (stored q)"
    by (simp_all add: balanced_def)
  have "parity_ok (slots q ! slot_of q (tail q))"
    using par slot_of_less [OF ring_ok] by (simp add: list_all_length)
  with assms(2) obtain x where some: "storage (slots q ! slot_of q (tail q)) = Some x"
    by (auto simp: parity_ok_def ready_to_take_def)
  then have mv: "move (slots q ! slot_of q (tail q)) = x"
    by (simp add: move_def)
  have st: "add_mset x (stored (taken q)) = stored q"
    by (rule stored_taken [OF ring_ok some])
  have "list_all parity_ok (slots (taken q))"
    unfolding slots_taken by (rule list_all_update [OF par]) (simp add: parity_ok_def)
  moreover have "ring_ok (taken q)"
    using ring_ok by (simp add: ring_ok_def slots_taken)
  moreover have "size (stored q) = Suc (size (stored (taken q)))"
    using st by (metis size_add_mset)
  ultimately show ?thesis
    using st cnt mv by (simp add: balanced_def)
qed

subsection \<open>Tickets as 64-bit words\<close>

lemma ticket_small:
  fixes c :: size_t
  assumes "k < 2 ^ 64"
  shows "unat ((of_nat k :: size_t) mod c) = k mod unat c"
    and "(of_nat k :: size_t) div c * 2 = of_nat (2 * (k div unat c))"
proof -
  have u: "unat (of_nat k :: size_t) = k"
    using assms by (simp add: unat_of_nat)
  show "unat ((of_nat k :: size_t) mod c) = k mod unat c"
    by (simp add: unat_mod_distrib u)
  have "(of_nat k :: size_t) div c = of_nat (k div unat c)"
    using word_arith_nat_div [of "of_nat k :: size_t" c] by (simp add: u)
  then show "(of_nat k :: size_t) div c * 2 = of_nat (2 * (k div unat c))"
    by simp
qed

lemma nat_half_wrap: "(2 * ((k mod 2 ^ 64) div 2)) mod 2 ^ 64 = (2 * (k div 2)) mod (2 ^ 64 :: nat)"
proof -
  have w: "(2 ^ 64 :: nat) = 2 * 2 ^ 63" by simp
  have "k mod (2 * 2 ^ 63) = 2 * (k div 2 mod 2 ^ 63) + k mod 2"
    by (rule mod_mult2_eq)
  then have "(k mod (2 * 2 ^ 63)) div 2 = k div 2 mod 2 ^ 63"
    by simp
  then have "2 * ((k mod 2 ^ 64) div 2) = 2 * (k div 2 mod 2 ^ 63)"
    by (simp only: w)
  also have "\<dots> = (2 * (k div 2)) mod (2 * 2 ^ 63)"
    by (rule mult_mod_right)
  finally have "2 * ((k mod 2 ^ 64) div 2) = (2 * (k div 2)) mod 2 ^ 64"
    by (simp only: w)
  then show ?thesis by simp
qed

lemma ticket_tiny:
  fixes c :: size_t
  assumes "unat c = 1 \<or> unat c = 2"
  shows "unat ((of_nat k :: size_t) mod c) = k mod unat c"
    and "(of_nat k :: size_t) div c * 2 = of_nat (2 * (k div unat c))"
proof -
  from assms have c: "c = 1 \<or> c = 2"
    by (auto simp: word_unat_eq_iff)
  have m2: "(k mod 18446744073709551616) mod 2 = k mod (2::nat)"
    by (simp add: mod_mod_cancel)
  from c show "unat ((of_nat k :: size_t) mod c) = k mod unat c"
    by (auto simp: unat_mod_distrib unat_of_nat m2)
  from c show "(of_nat k :: size_t) div c * 2 = of_nat (2 * (k div unat c))"
  proof
    assume "c = 1" then show ?thesis by simp
  next
    assume c2: "c = 2"
    have "(of_nat k :: size_t) div 2 = of_nat ((k mod 2 ^ 64) div 2)"
      using word_arith_nat_div [of "of_nat k :: size_t" 2] by (simp add: unat_of_nat)
    then have "(of_nat k :: size_t) div 2 * 2 = of_nat (2 * ((k mod 2 ^ 64) div 2))"
      by simp
    also have "\<dots> = of_nat (2 * (k div 2))"
      unfolding word_of_nat_eq_iff take_bit_eq_mod using nat_half_wrap [of k] by simp
    finally show ?thesis using c2 by simp
  qed
qed

subsection \<open>The window of tickets\<close>

lemma residues_differ:
  fixes a b C :: nat
  assumes "a < b" "b < a + C"
  shows "a mod C \<noteq> b mod C"
proof
  assume "a mod C = b mod C"
  then have "C dvd b - a"
    using assms(1) by (metis mod_eq_dvd_iff_nat less_imp_le)
  moreover have "0 < b - a" "b - a < C"
    using assms by simp_all
  ultimately show False
    by (meson dvd_imp_le not_le)
qed

lemma residues_differ': 
  fixes a b C :: nat
  assumes "a \<noteq> b" "t \<le> a" "a < t + C" "t \<le> b" "b < t + C"
  shows "a mod C \<noteq> b mod C"
proof (cases "a < b")
  case True
  with assms show ?thesis by (intro residues_differ) simp_all
next
  case False
  with assms have "b < a" by simp
  with assms have "b mod C \<noteq> a mod C" by (intro residues_differ) simp_all
  then show ?thesis by simp
qed

lemma ticket_of_slot:
  fixes t C i :: nat
  assumes "i < C"
  shows "\<exists>k \<in> {t..<t + C}. k mod C = i"
proof -
  define b where "b = t div C * C"
  have lo: "b \<le> t"
    by (simp add: b_def)
  have hi: "t < b + C"
    using assms unfolding b_def
    by (metis dividend_less_div_times less_nat_zero_code not_gr_zero add.commute mult.commute)
  have m: "(b + i) mod C = i" "(b + i + C) mod C = i"
    using assms by (simp_all add: b_def)
  show ?thesis
  proof (cases "t \<le> b + i")
    case True
    with lo hi assms have "b + i \<in> {t..<t + C}" by simp
    with m(1) show ?thesis by blast
  next
    case False
    with lo hi assms have "b + i + C \<in> {t..<t + C}" by simp
    with m(2) show ?thesis by blast
  qed
qed

lemma windowD:
  assumes "window q h t xs"
  shows "ring_ok q" "head q = of_nat h" "tail q = of_nat t" "h = t + length xs"
    "length xs \<le> unat (capacity q)" "unat (capacity q) \<le> 2 \<or> h \<le> 2 ^ 64"
    "\<And>k. t \<le> k \<Longrightarrow> k < h \<Longrightarrow> slots q ! (k mod unat (capacity q)) =
        \<lparr>turn = of_nat (2 * (k div unat (capacity q)) + 1), storage = Some (xs ! (k - t))\<rparr>"
    "\<And>k. h \<le> k \<Longrightarrow> k < t + unat (capacity q) \<Longrightarrow> slots q ! (k mod unat (capacity q)) =
        \<lparr>turn = of_nat (2 * (k div unat (capacity q))), storage = None\<rparr>"
  using assms unfolding window_def by (blast, blast, blast, blast, blast, blast, simp, simp)

lemma capacity_pos: "ring_ok q \<Longrightarrow> 0 < unat (capacity q)"
  by (simp add: ring_ok_def unat_gt_0)

lemma ticket_norm:
  assumes "unat (capacity q) \<le> 2 \<or> k < 2 ^ 64" "ring_ok q"
  shows "slot_of q (of_nat k) = k mod unat (capacity q)"
    and "turn_of q (of_nat k) * 2 = of_nat (2 * (k div unat (capacity q)))"
proof -
  from assms(1) capacity_pos [OF assms(2)]
  consider "k < 2 ^ 64" | "unat (capacity q) = 1 \<or> unat (capacity q) = 2"
    by linarith
  then have "unat ((of_nat k :: size_t) mod capacity q) = k mod unat (capacity q) \<and>
      (of_nat k :: size_t) div capacity q * 2 = of_nat (2 * (k div unat (capacity q)))"
  proof cases
    case 1
    then show ?thesis using ticket_small [of k "capacity q"] by simp
  next
    case 2
    then show ?thesis using ticket_tiny [of "capacity q" k] by simp
  qed
  then show "slot_of q (of_nat k) = k mod unat (capacity q)"
    and "turn_of q (of_nat k) * 2 = of_nat (2 * (k div unat (capacity q)))"
    by (simp_all add: slot_of_def idx_def turn_of_def)
qed

lemma odd_turn_not_even: "(of_nat (2 * n + 1) :: size_t) \<noteq> x * 2"
proof
  assume "(of_nat (2 * n + 1) :: size_t) = x * 2"
  then have "even (of_nat (2 * n + 1) :: size_t)" by simp
  then show False by simp
qed

lemma even_turn_not_odd: "(of_nat (2 * n) :: size_t) \<noteq> x * 2 + 1"
proof
  assume "(of_nat (2 * n) :: size_t) = x * 2 + 1"
  then have "odd (of_nat (2 * n) :: size_t)" by simp
  then show False by simp
qed

lemma window_fill:
  assumes w: "window q h t xs"
    and room: "length xs < unat (capacity q)"
    and reg: "unat (capacity q) \<le> 2 \<or> h < 2 ^ 64"
  shows "ready_to_fill q (head q)" and "window (filled v q) (Suc h) t (xs @ [v])"
proof -
  let ?C = "unat (capacity q)"
  note d = windowD [OF w]
  have s: "slot_of q (head q) = h mod ?C"
    and e: "turn_of q (head q) * 2 = of_nat (2 * (h div ?C))"
    using ticket_norm [OF reg d(1)] d(2) by simp_all
  have hslot: "slots q ! (h mod ?C) = \<lparr>turn = of_nat (2 * (h div ?C)), storage = None\<rparr>"
    using d(8) [of h] d(4) room by simp
  show "ready_to_fill q (head q)"
    by (simp add: ready_to_fill_def s e hslot)
  have len: "h mod ?C < length (slots q)"
    using slot_of_less [OF d(1), of "head q"] s by simp
  have sl: "slots (filled v q) =
      (slots q)[h mod ?C := \<lparr>turn = of_nat (2 * (h div ?C) + 1), storage = Some v\<rparr>]"
    by (simp add: slots_filled s e add.commute)
  have full: "\<forall>k \<in> {t..<Suc h}. slots (filled v q) ! (k mod ?C) =
      \<lparr>turn = of_nat (2 * (k div ?C) + 1), storage = Some ((xs @ [v]) ! (k - t))\<rparr>"
  proof
    fix k assume k: "k \<in> {t..<Suc h}"
    show "slots (filled v q) ! (k mod ?C) =
      \<lparr>turn = of_nat (2 * (k div ?C) + 1), storage = Some ((xs @ [v]) ! (k - t))\<rparr>"
    proof (cases "k = h")
      case True
      with len d(4) show ?thesis by (simp add: sl)
    next
      case False
      with k have kh: "t \<le> k" "k < h" by simp_all
      with d(4) room have "k mod ?C \<noteq> h mod ?C"
        by (intro residues_differ) simp_all
      moreover have "k - t < length xs" using kh d(4) by simp
      ultimately show ?thesis
        using d(7) [OF kh] by (simp add: sl nth_append)
    qed
  qed
  have free: "\<forall>k \<in> {Suc h..<t + ?C}. slots (filled v q) ! (k mod ?C) =
      \<lparr>turn = of_nat (2 * (k div ?C)), storage = None\<rparr>"
  proof
    fix k assume k: "k \<in> {Suc h..<t + ?C}"
    then have kh: "h \<le> k" "k < t + ?C" "h < k" by simp_all
    with d(4) have "h mod ?C \<noteq> k mod ?C"
      by (intro residues_differ) simp_all
    then show "slots (filled v q) ! (k mod ?C) = \<lparr>turn = of_nat (2 * (k div ?C)), storage = None\<rparr>"
      using d(8) [OF kh(1,2)] by (simp add: sl)
  qed
  have "ring_ok (filled v q)"
    using d(1) by (simp add: ring_ok_def sl)
  moreover have "unat (capacity q) \<le> 2 \<or> Suc h \<le> 2 ^ 64"
    using reg by auto
  ultimately show "window (filled v q) (Suc h) t (xs @ [v])"
    using full free d(2,3,4) room unfolding window_def by simp
qed

lemma window_take:
  assumes w: "window q h t xs"
    and ne: "xs \<noteq> []"
  shows "ready_to_take q (tail q)" and "move (slots q ! slot_of q (tail q)) = hd xs"
    and "window (taken q) h (Suc t) (tl xs)"
proof -
  let ?C = "unat (capacity q)"
  note d = windowD [OF w]
  from ne d(4) have th: "t < h" by simp
  have pos: "0 < ?C" by (rule capacity_pos [OF d(1)])
  have reg: "?C \<le> 2 \<or> t < 2 ^ 64"
    using d(6) th by auto
  have s: "slot_of q (tail q) = t mod ?C"
    and e: "turn_of q (tail q) * 2 = of_nat (2 * (t div ?C))"
    using ticket_norm [OF reg d(1)] d(3) by simp_all
  have tslot: "slots q ! (t mod ?C) = \<lparr>turn = of_nat (2 * (t div ?C) + 1), storage = Some (xs ! 0)\<rparr>"
    using d(7) [of t] th by simp
  show "ready_to_take q (tail q)"
    by (simp add: ready_to_take_def s e tslot)
  show "move (slots q ! slot_of q (tail q)) = hd xs"
    using ne by (simp add: s tslot move_def hd_conv_nth)
  have len: "t mod ?C < length (slots q)"
    using slot_of_less [OF d(1), of "tail q"] s by simp
  have sl: "slots (taken q) =
      (slots q)[t mod ?C := \<lparr>turn = of_nat (2 * ((t + ?C) div ?C)), storage = None\<rparr>]"
  proof -
    have "(t + ?C) div ?C = Suc (t div ?C)"
      using pos div_add_self2 [of ?C t] by simp
    then have "(of_nat (2 * ((t + ?C) div ?C)) :: size_t) = of_nat (2 * (t div ?C)) + 2"
      by simp
    then show ?thesis
      by (simp add: slots_taken s e)
  qed
  have full: "\<forall>k \<in> {Suc t..<h}. slots (taken q) ! (k mod ?C) =
      \<lparr>turn = of_nat (2 * (k div ?C) + 1), storage = Some (tl xs ! (k - Suc t))\<rparr>"
  proof
    fix k assume k: "k \<in> {Suc t..<h}"
    then have kh: "t \<le> k" "k < h" "t < k" by simp_all
    with d(4,5) have "t mod ?C \<noteq> k mod ?C"
      by (intro residues_differ) simp_all
    moreover have "tl xs ! (k - Suc t) = xs ! (k - t)"
      using kh d(4) by (simp add: nth_tl Suc_diff_Suc)
    ultimately show "slots (taken q) ! (k mod ?C) =
      \<lparr>turn = of_nat (2 * (k div ?C) + 1), storage = Some (tl xs ! (k - Suc t))\<rparr>"
      using d(7) [OF kh(1,2)] by (simp add: sl)
  qed
  have free: "\<forall>k \<in> {h..<Suc t + ?C}. slots (taken q) ! (k mod ?C) =
      \<lparr>turn = of_nat (2 * (k div ?C)), storage = None\<rparr>"
  proof
    fix k assume k: "k \<in> {h..<Suc t + ?C}"
    show "slots (taken q) ! (k mod ?C) = \<lparr>turn = of_nat (2 * (k div ?C)), storage = None\<rparr>"
    proof (cases "k = t + ?C")
      case True
      with len show ?thesis by (simp add: sl)
    next
      case False
      with k have kh: "h \<le> k" "k < t + ?C" by simp_all
      with th have "t mod ?C \<noteq> k mod ?C"
        by (intro residues_differ) simp_all
      then show ?thesis
        using d(8) [OF kh] by (simp add: sl)
    qed
  qed
  have "ring_ok (taken q)"
    using d(1) by (simp add: ring_ok_def sl)
  moreover have "h = Suc t + length (tl xs)"
    using d(4) ne by simp
  moreover have "length (tl xs) \<le> ?C"
    using d(5) by simp
  ultimately show "window (taken q) h (Suc t) (tl xs)"
    using full free d(2,3,6) unfolding window_def by simp
qed

lemma window_slot_cases:
  assumes w: "window q h t xs" and i: "i < unat (capacity q)"
  obtains k where "t \<le> k" "k < h" "k mod unat (capacity q) = i"
      "slots q ! i = \<lparr>turn = of_nat (2 * (k div unat (capacity q)) + 1), storage = Some (xs ! (k - t))\<rparr>"
    | k where "h \<le> k" "k < t + unat (capacity q)" "k mod unat (capacity q) = i"
      "slots q ! i = \<lparr>turn = of_nat (2 * (k div unat (capacity q))), storage = None\<rparr>"
proof -
  note d = windowD [OF w]
  from ticket_of_slot [OF i, of t] obtain k
    where k: "t \<le> k" "k < t + unat (capacity q)" "k mod unat (capacity q) = i"
    by auto
  show thesis
  proof (cases "k < h")
    case True
    with d(7) [OF k(1) True] k that(1) show ?thesis by simp
  next
    case False
    then have "h \<le> k" by simp
    with d(8) [OF this k(2)] k that(2) show ?thesis by simp
  qed
qed

lemma window_full_blocked:
  assumes w: "window q h t xs" and full: "length xs = unat (capacity q)"
  shows "\<not> ready_to_fill q x"
proof -
  note d = windowD [OF w]
  have i: "slot_of q x < unat (capacity q)"
    using slot_of_less [OF d(1), of x] d(1) by (simp add: ring_ok_def)
  from w i show ?thesis
  proof (cases rule: window_slot_cases)
    case (1 k)
    then show ?thesis
      using odd_turn_not_even [of "k div unat (capacity q)" "turn_of q x"]
      by (simp add: ready_to_fill_def)
  next
    case (2 k)
    with d(4) full show ?thesis by simp
  qed
qed

lemma window_empty_blocked:
  assumes w: "window q h t []"
  shows "\<not> ready_to_take q x"
proof -
  note d = windowD [OF w]
  have i: "slot_of q x < unat (capacity q)"
    using slot_of_less [OF d(1), of x] d(1) by (simp add: ring_ok_def)
  from w i show ?thesis
  proof (cases rule: window_slot_cases)
    case (1 k)
    with d(4) show ?thesis by simp
  next
    case (2 k)
    then show ?thesis
      using even_turn_not_odd [of "k div unat (capacity q)" "turn_of q x"]
      by (simp add: ready_to_take_def)
  qed
qed

lemma wrapped_generation:
  fixes k C :: nat
  assumes "2 ^ 64 \<le> k" "k < 2 ^ 64 + C" "2 < C" "C < 2 ^ 64"
  shows "(of_nat (2 * (k div C)) :: size_t) \<noteq> 0"
proof -
  have "C \<le> k" using assms by simp
  then have pos: "0 < k div C"
    using assms(3) by (simp add: div_greater_zero_iff)
  have "3 * (2 ^ 63 - 1) \<le> C * (2 ^ 63 - (1::nat))"
    using assms(3) by (intro mult_le_mono1) simp
  then have "2 ^ 64 + C \<le> C * 2 ^ 63"
    by (simp add: diff_mult_distrib2)
  with assms(2) have "k < 2 ^ 63 * C"
    by (simp add: mult.commute)
  then have "k div C < 2 ^ 63"
    by (rule less_mult_imp_div_less)
  then have lt: "2 * (k div C) < 2 ^ 64"
    by simp
  have "unat (of_nat (2 * (k div C)) :: size_t) = 2 * (k div C)"
    unfolding unat_of_nat using lt by simp
  with pos have "unat (of_nat (2 * (k div C)) :: size_t) \<noteq> 0"
    by simp
  then show ?thesis
    by (metis unat_0)
qed

lemma window_wrap_blocked:
  assumes w: "window q h t xs" and big: "2 < unat (capacity q)" and wrap: "h = 2 ^ 64"
  shows "\<not> ready_to_fill q (head q)"
proof -
  let ?C = "unat (capacity q)"
  note d = windowD [OF w]
  have hd0: "head q = 0"
    using d(2) wrap by simp
  have s0: "slot_of q (head q) = 0" and e0: "turn_of q (head q) * 2 = 0"
    by (simp_all add: hd0 slot_of_def idx_def turn_of_def)
  have "0 < ?C" using big by simp
  with w show ?thesis
  proof (cases rule: window_slot_cases)
    case (1 k)
    then show ?thesis
      using odd_turn_not_even [of "k div ?C" "turn_of q (head q)"]
      by (simp add: ready_to_fill_def s0)
  next
    case (2 k)
    have "k < 2 ^ 64 + ?C"
      using 2(2) d(4) wrap by simp
    moreover have "?C < 2 ^ 64"
      using unsigned_less [of "capacity q"] by simp
    ultimately have "(of_nat (2 * (k div ?C)) :: size_t) \<noteq> 0"
      using 2(1) big wrap by (intro wrapped_generation) simp_all
    with 2(4) show ?thesis
      by (simp add: ready_to_fill_def s0 e0)
  qed
qed

lemma window_ready_to_fill:
  assumes "window q h t xs"
  shows "ready_to_fill q (head q) \<longleftrightarrow>
    length xs < unat (capacity q) \<and> (unat (capacity q) \<le> 2 \<or> h < 2 ^ 64)"
proof (cases "length xs < unat (capacity q)")
  case room: True
  show ?thesis
  proof (cases "unat (capacity q) \<le> 2 \<or> h < 2 ^ 64")
    case True
    with window_fill(1) [OF assms room] room show ?thesis by simp
  next
    case False
    with windowD(6) [OF assms] have "2 < unat (capacity q)" "h = 2 ^ 64" by simp_all
    from window_wrap_blocked [OF assms this] False show ?thesis by simp
  qed
next
  case False
  with windowD(5) [OF assms] have "length xs = unat (capacity q)" by simp
  from window_full_blocked [OF assms this] False show ?thesis by simp
qed

lemma window_ready_to_take:
  assumes "window q h t xs"
  shows "ready_to_take q (tail q) \<longleftrightarrow> xs \<noteq> []"
  using window_take(1) [OF assms] window_empty_blocked [of q h t] assms by (cases xs) auto

subsection \<open>\<^verbatim>\<open>size\<close> and \<^verbatim>\<open>empty\<close>\<close>

lemma queue_size_cong: "queue_size q mod 2 ^ 64 = (uint (head q) - uint (tail q)) mod 2 ^ 64"
proof -
  have "uint (head q - tail q) = (uint (head q) - uint (tail q)) mod 2 ^ 64"
    by (simp add: uint_word_ariths)
  moreover have "uint (head q - tail q) = sint (head q - tail q) mod 2 ^ 64"
    using uint_sint [of "head q - tail q"] by (simp add: take_bit_eq_mod)
  ultimately show ?thesis by (simp add: queue_size_def)
qed

lemma queue_size_range: "- (2 ^ 63) \<le> queue_size q \<and> queue_size q < 2 ^ 63"
  using sint_ge [of "head q - tail q"] sint_lt [of "head q - tail q"]
  by (simp add: queue_size_def)

lemma queue_size_exact:
  assumes "- (2 ^ 63) \<le> uint (head q) - uint (tail q)"
    and "uint (head q) - uint (tail q) < 2 ^ 63"
  shows "queue_size q = uint (head q) - uint (tail q)"
proof -
  let ?d = "uint (head q) - uint (tail q)"
  have "queue_size q mod 2 ^ 64 = ?d mod 2 ^ 64"
    by (rule queue_size_cong)
  then have "(queue_size q - ?d) mod 2 ^ 64 = 0"
    by (simp add: mod_eq_dvd_iff dvd_eq_mod_eq_0)
  then obtain k where k: "queue_size q - ?d = 2 ^ 64 * k"
    by (auto simp: mod_eq_0_iff_dvd)
  have "- (2 ^ 64) < queue_size q - ?d" "queue_size q - ?d < 2 ^ 64"
    using queue_size_range [of q] assms by simp_all
  with k have "k = 0" by auto
  with k show ?thesis by simp
qed

text \<open>
  Claim C4. \<^verbatim>\<open>size()\<close> is the signed difference of the two counters: it is congruent
  to \<open>head - tail\<close> modulo \<open>2^64\<close> and lies in the range of \<^verbatim>\<open>ptrdiff_t\<close>, so
  it is exactly \<open>head - tail\<close>, negative values included, whenever that difference
  fits 64 signed bits. \<^verbatim>\<open>empty()\<close> holds exactly when \<^verbatim>\<open>size()\<close> is at most 0.
\<close>

theorem queue_size_signed_difference:
  "queue_size q mod 2 ^ 64 = (uint (head q) - uint (tail q)) mod 2 ^ 64 \<and>
   - (2 ^ 63) \<le> queue_size q \<and> queue_size q < 2 ^ 63 \<and>
   (- (2 ^ 63) \<le> uint (head q) - uint (tail q) \<and> uint (head q) - uint (tail q) < 2 ^ 63
      \<longrightarrow> queue_size q = uint (head q) - uint (tail q)) \<and>
   (queue_empty q \<longleftrightarrow> queue_size q \<le> 0)"
  using queue_size_cong [of q] queue_size_range [of q] queue_size_exact [of q]
  by (simp add: queue_empty_def)

text \<open>With a consumer waiting on the empty queue the size is \<open>-1\<close>.\<close>

theorem queue_size_signed_difference_witness:
  "queue_size waiting_reader = - 1 \<and> queue_empty waiting_reader"
  using queue_size_signed_difference [of waiting_reader]
  by (simp add: waiting_reader_def)

end
